theory Spec2Isabelle
  imports Main "HOL-Library.Sublist"
begin

section \<open>Python string primitives used by answer\_buttons.py\<close>

text \<open>
  A Python \<open>str\<close> is modelled as a \<open>string\<close>. All patterns the module searches for
  are ASCII, and every offset that is computed is only used to cut the same string
  again, so the results do not depend on how a non-ASCII character is encoded.
\<close>

text \<open>
  \<open>s.replace(old, new)\<close>: the occurrences of \<open>old\<close> are found from left to right and do
  not overlap; after a replacement the scan goes on behind the replaced occurrence.
  For an empty \<open>old\<close> Python puts \<open>new\<close> in front of every character and at the end.
\<close>

function str_replace :: "string \<Rightarrow> string \<Rightarrow> string \<Rightarrow> string" where
  "str_replace old new s =
     (if old = [] then new @ concat (map (\<lambda>c. c # new) s)
      else if s = [] then []
      else if take (length old) s = old
        then new @ str_replace old new (drop (length old) s)
      else hd s # str_replace old new (tl s))"
  by pat_completeness auto
termination
  by (relation "measure (\<lambda>(old, new, s). length s)") auto

declare str_replace.simps [simp del]

text \<open>
  \<open>[m.start() for m in re.finditer(pat, s)]\<close> for a pattern without regex
  metacharacters (the module only uses \<open>r'<td'\<close>): the start offsets of the
  non-overlapping matches, from left to right. The second argument is the offset of
  the rest of the string that is still to be scanned.
\<close>

function finditer_from :: "string \<Rightarrow> nat \<Rightarrow> string \<Rightarrow> nat list" where
  "finditer_from pat i s =
     (if pat = [] then map (\<lambda>k. i + k) [0 ..< Suc (length s)]
      else if s = [] then []
      else if take (length pat) s = pat
        then i # finditer_from pat (i + length pat) (drop (length pat) s)
      else finditer_from pat (Suc i) (tl s))"
  by pat_completeness auto
termination
  by (relation "measure (\<lambda>(pat, i, s). length s)") auto

declare finditer_from.simps [simp del]

definition finditer_starts :: "string \<Rightarrow> string \<Rightarrow> nat list" where
  "finditer_starts pat s = finditer_from pat 0 s"


text \<open>\<open>pat in s\<close>: the pattern occurs somewhere in the string.\<close>

fun occurs :: "string \<Rightarrow> string \<Rightarrow> bool" where
  "occurs pat [] = (pat = [])"
| "occurs pat (c # cs) = (take (length pat) (c # cs) = pat \<or> occurs pat cs)"

text \<open>
  The number of positions at which a non-empty pattern occurs (occurrences that
  overlap are all counted).
\<close>

fun count_occ :: "string \<Rightarrow> string \<Rightarrow> nat" where
  "count_occ pat [] = 0"
| "count_occ pat (c # cs) =
     (if take (length pat) (c # cs) = pat then 1 else 0) + count_occ pat cs"


section \<open>The collaborators: configuration, translations, the reviewer\<close>

datatype error = IndexError | AssertionError

text \<open>
  \<open>config[key] is True\<close> is an identity test against the object \<open>True\<close>, so each
  option is the truth value of that test. \<open>get_color\<close> is \<open>config.get_color\<close>.
\<close>

record config =
  pass_fail :: bool
  color_buttons :: bool
  remove_buttons :: bool
  prevent_clicks :: bool
  flexible_grading :: bool
  get_color :: "int \<Rightarrow> int \<Rightarrow> string"

text \<open>The translated texts of \<open>aqt.tr\<close> that the module reads.\<close>

record tr =
  actions_shortcut_key :: "string \<Rightarrow> string"
  studying_space :: string
  studying_show_answer :: string

text \<open>
  What the module reads from the host's \<open>Reviewer\<close> object: \<open>_defaultEase()\<close>,
  \<open>_answerButtonList()\<close>, \<open>_buttonTime(ease, v3_labels=labels)\<close>, \<open>_remaining()\<close>, the
  states of \<open>_v3\<close> (\<open>None\<close> when \<open>_v3\<close> is unset), whether \<open>mw.col.sched\<close> is a
  \<open>V3Scheduler\<close>, its \<open>describe_next_states\<close>, and the row rendered by the unwrapped
  \<open>Reviewer._answerButtons\<close>, which the module keeps as \<open>_ans_buttons_default\<close>.
\<close>

record 's reviewer =
  defaultEase :: int
  answerButtonList :: "(int \<times> string) list"
  buttonTime :: "int \<Rightarrow> string list option \<Rightarrow> string"
  remaining :: string
  v3 :: "'s option"
  sched_is_v3 :: bool
  describe_next_states :: "'s \<Rightarrow> string list"
  ans_buttons_default :: string

datatype web_call = Eval string | AdjustHeightToFit


section \<open>The button-list filter\<close>

definition is_again_or_good :: "int \<Rightarrow> int \<Rightarrow> string \<Rightarrow> bool" where
  "is_again_or_good default_ease ease label = (ease \<in> set [1, default_ease])"

definition only_pass_fail :: "(int \<times> string) list \<Rightarrow> int \<Rightarrow> (int \<times> string) list" where
  "only_pass_fail buttons default_ease =
     [button \<leftarrow> buttons. is_again_or_good default_ease (fst button) (snd button)]"

definition color_label :: "config \<Rightarrow> int \<Rightarrow> int \<Rightarrow> string \<Rightarrow> int \<times> string" where
  \<open>color_label cfg default_ease ease label =
     (ease, ''<font color="'' @ get_color cfg ease default_ease @ ''">'' @ label @ ''</font>'')\<close>

definition apply_label_colors ::
  "config \<Rightarrow> (int \<times> string) list \<Rightarrow> int \<Rightarrow> (int \<times> string) list" where
  "apply_label_colors cfg buttons default_ease =
     map (\<lambda>button. color_label cfg default_ease (fst button) (snd button)) buttons"

definition filter_answer_buttons ::
  "config \<Rightarrow> (int \<times> string) list \<Rightarrow> 's reviewer \<Rightarrow> (int \<times> string) list" where
  "filter_answer_buttons cfg buttons self =
     (let buttons1 = (if pass_fail cfg then only_pass_fail buttons (defaultEase self)
                      else buttons)
      in if color_buttons cfg then apply_label_colors cfg buttons1 (defaultEase self)
         else buttons1)"


section \<open>The markup of the answer rows\<close>

definition newline :: string where
  "newline = [CHR 0x0A]"

definition get_ease_row_css :: string where
  \<open>get_ease_row_css =
     concat (map (\<lambda>line. line @ newline)
       [[],
        ''    <style>'',
        ''    .ajt__ease_row {'',
        ''        display: flex;'',
        ''        flex-flow: row nowrap;'',
        ''        justify-content: space-between;'',
        ''        align-items: flex-start;'',
        ''        max-width: 450px;'',
        ''        min-width: 200px;'',
        ''        user-select: none;'',
        ''        margin: -3px auto 0;'',
        ''    }'',
        ''    .ajt__ease_row > * {'',
        ''        white-space: nowrap;'',
        ''        font-size: small;'',
        ''        font-weight: normal;'',
        ''    }'',
        ''    .ajt__ease_row > .ajt__stat_txt:only-child {'',
        ''        margin: 0 auto;'',
        ''    }'',
        ''    </style>''])
     @ ''    ''\<close>

text \<open>
  The labels handed to \<open>_buttonTime\<close>. The \<open>assert isinstance(...)\<close> raises when \<open>_v3\<close>
  is set and the scheduler is not a \<open>V3Scheduler\<close>.
\<close>

definition v3_labels :: "'s reviewer \<Rightarrow> error + string list option" where
  "v3_labels self =
     (case v3 self of
        Some states \<Rightarrow>
          if sched_is_v3 self then Inr (Some (describe_next_states self states))
          else Inl AssertionError
      | None \<Rightarrow> Inr None)"

definition button_time :: "config \<Rightarrow> 's reviewer \<Rightarrow> int \<Rightarrow> error + string" where
  \<open>button_time cfg self ease =
     (case v3_labels self of
        Inl e \<Rightarrow> Inl e
      | Inr labels \<Rightarrow>
          let html = str_replace ''class="nobold"'' [] (buttonTime self ease labels)
          in Inr (if color_buttons cfg
                  then str_replace ''<span''
                         (''<span style="color: '' @ get_color cfg ease (defaultEase self) @ '';"'')
                         html
                  else html))\<close>

definition stat_txt :: "'s reviewer \<Rightarrow> string" where
  \<open>stat_txt self = ''<div class="ajt__stat_txt">'' @ remaining self @ ''</div>''\<close>

text \<open>
  Running a fallible function over a list, as the generator handed to \<open>extend\<close> does:
  the first exception ends the loop and is the result.
\<close>

fun collect :: "('a \<Rightarrow> error + 'b) \<Rightarrow> 'a list \<Rightarrow> error + 'b list" where
  "collect f [] = Inr []"
| "collect f (x # xs) =
     (case f x of
        Inl e \<Rightarrow> Inl e
      | Inr y \<Rightarrow> (case collect f xs of Inl e \<Rightarrow> Inl e | Inr ys \<Rightarrow> Inr (y # ys)))"

text \<open>\<open>xs.insert(i, x)\<close> for \<open>0 \<le> i\<close>: an index behind the end appends.\<close>

definition list_insert :: "'a list \<Rightarrow> nat \<Rightarrow> 'a \<Rightarrow> 'a list" where
  "list_insert xs i x = take i xs @ [x] @ drop i xs"

text \<open>The list \<open>ease_row\<close> that \<open>make_buttonless_ease_row\<close> builds before joining it.\<close>

definition ease_row :: "config \<Rightarrow> 's reviewer \<Rightarrow> bool \<Rightarrow> error + string list" where
  "ease_row cfg self front =
     (case (if \<not> front \<or> flexible_grading cfg
            then collect (\<lambda>button. button_time cfg self (fst button)) (answerButtonList self)
            else Inr [])
      of Inl e \<Rightarrow> Inl e
       | Inr row \<Rightarrow>
           Inr (if front then list_insert row (length row div 2) (stat_txt self) else row))"

definition make_buttonless_ease_row :: "config \<Rightarrow> 's reviewer \<Rightarrow> bool \<Rightarrow> error + string" where
  \<open>make_buttonless_ease_row cfg self front =
     (case ease_row cfg self front of
        Inl e \<Rightarrow> Inl e
      | Inr row \<Rightarrow>
          Inr (get_ease_row_css @ ''<div class="ajt__ease_row">'' @ concat row @ ''</div>''))\<close>

definition disable_buttons :: "string \<Rightarrow> string" where
  "disable_buttons html = str_replace ''<button'' ''<button disabled'' html"


definition make_show_ans_button :: "tr \<Rightarrow> 's reviewer \<Rightarrow> string" where
  \<open>make_show_ans_button t self =
     newline @ ''        <button title="'' @ actions_shortcut_key t (studying_space t)
     @ ''" onclick='pycmd("ans");'>'' @ studying_show_answer t
     @ ''<span class=stattxt>'' @ remaining self @ ''</span></button>'' @ newline
     @ ''        ''\<close>

definition make_show_ans_table_cell :: "tr \<Rightarrow> 's reviewer \<Rightarrow> string" where
  "make_show_ans_table_cell t self =
     ''<td align=center>'' @ make_show_ans_button t self @ ''</td>''"

text \<open>
  \<open>cell_positions[:len(cell_positions) // 2 + 1][-1]\<close>: the index \<open>[-1]\<close> raises
  \<open>IndexError\<close> on an empty list.
\<close>

definition calc_middle_insert_pos :: "string \<Rightarrow> error + nat" where
  "calc_middle_insert_pos buttons_html_table =
     (let cell_positions = finditer_starts ''<td'' buttons_html_table;
          upto_middle = take (length cell_positions div 2 + 1) cell_positions
      in if upto_middle = [] then Inl IndexError else Inr (last upto_middle))"

definition make_flexible_front_row :: "tr \<Rightarrow> 's reviewer \<Rightarrow> error + string" where
  "make_flexible_front_row t self =
     (let ans_buttons = ans_buttons_default self
      in case calc_middle_insert_pos ans_buttons of
           Inl e \<Rightarrow> Inl e
         | Inr insert_pos \<Rightarrow>
             Inr (take insert_pos ans_buttons @ make_show_ans_table_cell t self
                  @ drop insert_pos ans_buttons))"

text \<open>The value of \<open>html\<close> when \<open>make_frontside_answer_buttons\<close> reaches its last test.\<close>

definition frontside_html :: "config \<Rightarrow> tr \<Rightarrow> 's reviewer \<Rightarrow> error + string option" where
  "frontside_html cfg t self =
     (if remove_buttons cfg then
        (case make_buttonless_ease_row cfg self True of
           Inl e \<Rightarrow> Inl e | Inr html \<Rightarrow> Inr (Some html))
      else if flexible_grading cfg then
        (case make_flexible_front_row t self of
           Inl e \<Rightarrow> Inl e
         | Inr html \<Rightarrow> Inr (Some (if prevent_clicks cfg then disable_buttons html else html)))
      else Inr None)"

text \<open>
  The calls made on \<open>self.bottom.web\<close>, in order. \<open>json_dumps\<close> is \<open>json.dumps\<close> on a
  string.
\<close>

definition make_frontside_answer_buttons ::
  "(string \<Rightarrow> string) \<Rightarrow> config \<Rightarrow> tr \<Rightarrow> 's reviewer \<Rightarrow> error + web_call list" where
  "make_frontside_answer_buttons json_dumps cfg t self =
     (case frontside_html cfg t self of
        Inl e \<Rightarrow> Inl e
      | Inr None \<Rightarrow> Inr []
      | Inr (Some html) \<Rightarrow>
          Inr [Eval (''showAnswer('' @ json_dumps html @ '');''), AdjustHeightToFit])"

section \<open>Example inputs\<close>

text \<open>
  A configuration with every option off, the translated texts, and a reviewer with the
  two pass/fail buttons whose time labels are rendered the way the host renders them.
\<close>

definition example_config :: config where
  "example_config =
     \<lparr>pass_fail = False, color_buttons = False, remove_buttons = False,
      prevent_clicks = False, flexible_grading = False, get_color = (\<lambda>ease d. ''red'')\<rparr>"

definition example_tr :: tr where
  "example_tr =
     \<lparr>actions_shortcut_key = (\<lambda>val. ''Shortcut key: '' @ val), studying_space = ''Space'',
      studying_show_answer = ''Show Answer''\<rparr>"

definition example_reviewer :: "unit reviewer" where
  \<open>example_reviewer =
     \<lparr>defaultEase = 3, answerButtonList = [(1, ''Again''), (3, ''Good'')],
      buttonTime = (\<lambda>ease labels. ''<span class="nobold">1d</span>''),
      remaining = ''1+2+3'', v3 = None, sched_is_v3 = False,
      describe_next_states = (\<lambda>states. []),
      ans_buttons_default = ''<button>Good</button>''\<rparr>\<close>


section \<open>Properties of the button-list filter\<close>

text \<open>
  Claim C1. For every button list \<open>L\<close> and default ease \<open>d\<close>, \<open>only_pass_fail L d\<close> is
  the subsequence of \<open>L\<close>, in the original order, of exactly the entries whose code
  is 1 (again) or \<open>d\<close>: it is a subsequence, each of its entries has such a code, and
  every entry of \<open>L\<close> with such a code is kept as often as it occurs. On the four
  standard buttons with \<open>d = 3\<close> the result is Again and Good. With \<open>pass_fail\<close> on
  and \<open>color_buttons\<close> off this is what \<open>filter_answer_buttons\<close> returns.
\<close>

theorem only_pass_fail_subsequence:
  "subseq (only_pass_fail L d) L
   \<and> (\<forall>b \<in> set (only_pass_fail L d). fst b = 1 \<or> fst b = d)
   \<and> (\<forall>b. fst b = 1 \<or> fst b = d \<longrightarrow> count_list (only_pass_fail L d) b = count_list L b)
   \<and> only_pass_fail L d = filter (\<lambda>b. fst b = 1 \<or> fst b = d) L
   \<and> only_pass_fail [(1, ''Again''), (2, ''Hard''), (3, ''Good''), (4, ''Easy'')] 3
       = [(1, ''Again''), (3, ''Good'')]
   \<and> (pass_fail cfg \<and> \<not> color_buttons cfg \<longrightarrow>
        filter_answer_buttons cfg L self = only_pass_fail L (defaultEase self))"
proof -
  have eq: "only_pass_fail L d = filter (\<lambda>b. fst b = 1 \<or> fst b = d) L" for L d
    by (simp add: only_pass_fail_def is_again_or_good_def)
  have cnt: "P b \<Longrightarrow> count_list (filter P L) b = count_list L b" for P and b :: "int \<times> string"
    by (induction L) auto
  show ?thesis
    unfolding eq by (auto simp: cnt filter_answer_buttons_def eq)
qed

theorem only_pass_fail_subsequence_witness:
  "(1, ''Again'') \<in> set (only_pass_fail [(1, ''Again''), (2, ''Hard''), (3, ''Good''), (4, ''Easy'')] 3)
   \<and> fst (3 :: int, ''Good'') = 3
   \<and> count_list (only_pass_fail [(1, ''Again''), (2, ''Hard''), (3, ''Good''), (4, ''Easy'')] 3)
        (3, ''Good'') = 1
   \<and> filter_answer_buttons
        \<lparr>pass_fail = True, color_buttons = False, remove_buttons = False,
         prevent_clicks = False, flexible_grading = False, get_color = (\<lambda>e d. ''red'')\<rparr>
        [(1, ''Again''), (2, ''Hard''), (3, ''Good''), (4, ''Easy'')]
        \<lparr>defaultEase = 3, answerButtonList = [], buttonTime = (\<lambda>e l. []), remaining = [],
         v3 = (None :: unit option), sched_is_v3 = False, describe_next_states = (\<lambda>s. []),
         ans_buttons_default = []\<rparr>
       = [(1, ''Again''), (3, ''Good'')]"
  using only_pass_fail_subsequence
    [of "[(1, ''Again''), (2, ''Hard''), (3, ''Good''), (4, ''Easy'')]" 3
        "\<lparr>pass_fail = True, color_buttons = False, remove_buttons = False,
         prevent_clicks = False, flexible_grading = False, get_color = (\<lambda>e d. ''red'')\<rparr>"
        "\<lparr>defaultEase = 3, answerButtonList = [], buttonTime = (\<lambda>e l. []), remaining = [],
         v3 = (None :: unit option), sched_is_v3 = False, describe_next_states = (\<lambda>s. []),
         ans_buttons_default = []\<rparr>"]
  by simp

text \<open>
  Claim C7. \<open>apply_label_colors\<close> keeps order and cardinality: the output is as long as
  the input, the \<open>i\<close>-th output keeps the \<open>i\<close>-th code, and its label is the \<open>i\<close>-th
  input label, unchanged, inside a font tag whose colour is \<open>get_color\<close> at the code and
  the default ease. With the lookup \<open>red\<close> for \<open>(1, 3)\<close> the list of the Again button
  becomes the red Again button; with only \<open>color_buttons\<close> on this is the result of
  \<open>filter_answer_buttons\<close>.
\<close>

theorem apply_label_colors_wraps:
  \<open>length (apply_label_colors cfg L d) = length L
   \<and> (\<forall>i < length L.
         fst (apply_label_colors cfg L d ! i) = fst (L ! i)
         \<and> snd (apply_label_colors cfg L d ! i)
             = ''<font color="'' @ get_color cfg (fst (L ! i)) d @ ''">'' @ snd (L ! i) @ ''</font>'')
   \<and> (get_color cfg 1 3 = ''red'' \<longrightarrow>
         apply_label_colors cfg [(1, ''Again'')] 3 = [(1, ''<font color="red">Again</font>'')])
   \<and> (color_buttons cfg \<and> \<not> pass_fail cfg \<longrightarrow>
         filter_answer_buttons cfg L self = apply_label_colors cfg L (defaultEase self))\<close>
  by (simp add: apply_label_colors_def color_label_def filter_answer_buttons_def)

theorem apply_label_colors_wraps_witness:
  \<open>(0 :: nat) < length [(1 :: int, ''Again'')]
   \<and> apply_label_colors
        \<lparr>pass_fail = False, color_buttons = True, remove_buttons = False,
         prevent_clicks = False, flexible_grading = False, get_color = (\<lambda>e d. ''red'')\<rparr>
        [(1, ''Again'')] 3 ! 0
      = (1, ''<font color="red">Again</font>'')
   \<and> filter_answer_buttons
        \<lparr>pass_fail = False, color_buttons = True, remove_buttons = False,
         prevent_clicks = False, flexible_grading = False, get_color = (\<lambda>e d. ''red'')\<rparr>
        [(1, ''Again'')]
        \<lparr>defaultEase = 3, answerButtonList = [], buttonTime = (\<lambda>e l. []), remaining = [],
         v3 = (None :: unit option), sched_is_v3 = False, describe_next_states = (\<lambda>s. []),
         ans_buttons_default = []\<rparr>
      = [(1, ''<font color="red">Again</font>'')]\<close>
  using apply_label_colors_wraps
    [of "\<lparr>pass_fail = False, color_buttons = True, remove_buttons = False,
         prevent_clicks = False, flexible_grading = False, get_color = (\<lambda>e d. ''red'')\<rparr>"
        "[(1, ''Again'')]" 3
        "\<lparr>defaultEase = 3, answerButtonList = [], buttonTime = (\<lambda>e l. []), remaining = [],
         v3 = (None :: unit option), sched_is_v3 = False, describe_next_states = (\<lambda>s. []),
         ans_buttons_default = []\<rparr>"]
  by simp

text \<open>
  Claim C8. With \<open>pass_fail\<close> and \<open>color_buttons\<close> both on, \<open>filter_answer_buttons\<close>
  restricts first and colours the survivors. The two orders of composition agree:
  colouring and then filtering gives the same list as filtering and then colouring,
  so the survivors have the codes of the pass/fail entries of \<open>L\<close> and each surviving
  label is the font tag around the unchanged label of that entry.
\<close>

theorem filter_then_colorize_agrees:
  \<open>(pass_fail cfg \<and> color_buttons cfg \<longrightarrow>
      filter_answer_buttons cfg L self
        = apply_label_colors cfg (only_pass_fail L (defaultEase self)) (defaultEase self))
   \<and> only_pass_fail (apply_label_colors cfg L d) d
        = apply_label_colors cfg (only_pass_fail L d) d
   \<and> map fst (only_pass_fail (apply_label_colors cfg L d) d) = map fst (only_pass_fail L d)
   \<and> map snd (only_pass_fail (apply_label_colors cfg L d) d)
        = map (\<lambda>b. ''<font color="'' @ get_color cfg (fst b) d @ ''">'' @ snd b @ ''</font>'')
            (only_pass_fail L d)\<close>
proof -
  have comm: "only_pass_fail (apply_label_colors cfg L d) d
                = apply_label_colors cfg (only_pass_fail L d) d"
    by (induction L)
       (simp_all add: only_pass_fail_def apply_label_colors_def color_label_def
          is_again_or_good_def)
  show ?thesis
    unfolding comm
    by (simp add: filter_answer_buttons_def apply_label_colors_def color_label_def comp_def)
qed

theorem filter_then_colorize_agrees_witness:
  \<open>filter_answer_buttons
        \<lparr>pass_fail = True, color_buttons = True, remove_buttons = False,
         prevent_clicks = False, flexible_grading = False,
         get_color = (\<lambda>e d. if e = 1 then ''red'' else ''green'')\<rparr>
        [(1, ''Again''), (2, ''Hard''), (3, ''Good''), (4, ''Easy'')]
        \<lparr>defaultEase = 3, answerButtonList = [], buttonTime = (\<lambda>e l. []), remaining = [],
         v3 = (None :: unit option), sched_is_v3 = False, describe_next_states = (\<lambda>s. []),
         ans_buttons_default = []\<rparr>
      = [(1, ''<font color="red">Again</font>''), (3, ''<font color="green">Good</font>'')]\<close>
  using filter_then_colorize_agrees
    [of "\<lparr>pass_fail = True, color_buttons = True, remove_buttons = False,
         prevent_clicks = False, flexible_grading = False,
         get_color = (\<lambda>e d. if e = 1 then ''red'' else ''green'')\<rparr>"
        "[(1, ''Again''), (2, ''Hard''), (3, ''Good''), (4, ''Easy'')]"
        "\<lparr>defaultEase = 3, answerButtonList = [], buttonTime = (\<lambda>e l. []), remaining = [],
         v3 = (None :: unit option), sched_is_v3 = False, describe_next_states = (\<lambda>s. []),
         ans_buttons_default = []\<rparr>" 3]
  by (simp add: only_pass_fail_def is_again_or_good_def apply_label_colors_def color_label_def)


section \<open>The midpoint of a button row\<close>

lemma last_take_middle:
  assumes "xs \<noteq> []"
  shows "last (take (length xs div 2 + 1) xs) = xs ! (length xs div 2)"
proof -
  from assms have lt: "length xs div 2 < length xs" by simp
  then have len: "length (take (length xs div 2 + 1) xs) = length xs div 2 + 1" by simp
  have "take (length xs div 2 + 1) xs \<noteq> []" using assms by simp
  then have "last (take (length xs div 2 + 1) xs)
               = take (length xs div 2 + 1) xs ! (length xs div 2)"
    using len by (simp add: last_conv_nth)
  then show ?thesis by simp
qed

lemma calc_middle_insert_pos_eq:
  "calc_middle_insert_pos s =
     (if finditer_starts ''<td'' s = [] then Inl IndexError
      else Inr (finditer_starts ''<td'' s ! (length (finditer_starts ''<td'' s) div 2)))"
  using last_take_middle [of "finditer_starts ''<td'' s"]
  by (simp add: calc_middle_insert_pos_def Let_def)

text \<open>
  Claim C2, as the claim states it, fails: a row without any \<open><td\<close> marker makes
  \<open>calc_middle_insert_pos\<close> raise \<open>IndexError\<close>; it does not yield position 0.
\<close>

theorem calc_middle_insert_pos_no_marker_counterexample:
  "finditer_starts ''<td'' ''<table><tr></tr></table>'' = []
   \<and> calc_middle_insert_pos ''<table><tr></tr></table>'' = Inl IndexError"
  by code_simp

text \<open>
  Claim C2, amended. \<open>calc_middle_insert_pos\<close> raises \<open>IndexError\<close> exactly when the row
  has no \<open><td\<close> marker. With \<open>N \<ge> 1\<close> markers it does not raise and returns the offset
  of the marker with index \<open>N div 2\<close>; with one marker that is the offset of the only
  marker.
\<close>

theorem calc_middle_insert_pos_result:
  "calc_middle_insert_pos s =
     (if finditer_starts ''<td'' s = [] then Inl IndexError
      else Inr (finditer_starts ''<td'' s ! (length (finditer_starts ''<td'' s) div 2)))
   \<and> (finditer_starts ''<td'' s = [p] \<longrightarrow> calc_middle_insert_pos s = Inr p)"
  by (simp add: calc_middle_insert_pos_eq)

theorem calc_middle_insert_pos_result_witness:
  "finditer_starts ''<td'' ''<tr><td>Good</td></tr>'' = [4]
   \<and> calc_middle_insert_pos ''<tr><td>Good</td></tr>'' = Inr 4"
  using calc_middle_insert_pos_result [of "''<tr><td>Good</td></tr>''" 4]
  by code_simp

section \<open>Facts about \<open>str_replace\<close> and \<open>disable_buttons\<close>\<close>

lemma str_replace_Nil: "old \<noteq> [] \<Longrightarrow> str_replace old new [] = []"
  by (simp add: str_replace.simps)

lemma str_replace_match:
  "old \<noteq> [] \<Longrightarrow> str_replace old new (old @ r) = new @ str_replace old new r"
  by (subst str_replace.simps) simp

lemma str_replace_skip:
  "old \<noteq> [] \<Longrightarrow> take (length old) (c # cs) \<noteq> old \<Longrightarrow>
     str_replace old new (c # cs) = c # str_replace old new cs"
  by (subst str_replace.simps) simp

lemma string_cases [case_names Nil match skip]:
  assumes "s = [] \<Longrightarrow> P"
    and "\<And>r. s = old @ r \<Longrightarrow> P"
    and "\<And>c cs. s = c # cs \<Longrightarrow> take (length old) (c # cs) \<noteq> old \<Longrightarrow> P"
  shows P
proof (cases s)
  case Nil
  then show ?thesis by (rule assms(1))
next
  case (Cons c cs)
  show ?thesis
  proof (cases "take (length old) s = old")
    case True
    then have "s = old @ drop (length old) s"
      by (metis append_take_drop_id)
    then show ?thesis by (rule assms(2))
  next
    case False
    with Cons show ?thesis by (auto intro: assms(3))
  qed
qed

lemma button_cases [case_names Nil match skip]:
  assumes "s = [] \<Longrightarrow> P"
    and "\<And>r. s = ''<button'' @ r \<Longrightarrow> P"
    and "\<And>c cs. s = c # cs \<Longrightarrow> take 7 (c # cs) \<noteq> ''<button'' \<Longrightarrow> P"
  shows P
proof -
  have len: "length ''<button'' = 7" by simp
  show ?thesis
    by (rule string_cases [of s P "''<button''", unfolded len]) (fact assms)+
qed

lemma disable_buttons_Nil: "disable_buttons [] = []"
  by (simp add: disable_buttons_def str_replace_Nil)

lemma disable_buttons_match:
  "disable_buttons (''<button'' @ r) = ''<button disabled'' @ disable_buttons r"
  unfolding disable_buttons_def by (rule str_replace_match) simp

lemma disable_buttons_skip:
  assumes "take 7 (c # cs) \<noteq> ''<button''"
  shows "disable_buttons (c # cs) = c # disable_buttons cs"
proof -
  have len: "length ''<button'' = 7" by simp
  have "take (length ''<button'') (c # cs) \<noteq> ''<button''"
    unfolding len by (rule assms)
  then show ?thesis
    unfolding disable_buttons_def by (intro str_replace_skip) simp_all
qed

lemma disable_buttons_prefix:
  "CHR ''<'' \<notin> set w \<Longrightarrow> prefix w (disable_buttons s) \<Longrightarrow> prefix w s"
proof (induction s arbitrary: w rule: length_induct)
  case (1 s)
  show ?case
  proof (cases s rule: button_cases)
    case Nil
    with 1 show ?thesis by (simp add: disable_buttons_Nil)
  next
    case (match r)
    have "disable_buttons s = ''<button disabled'' @ disable_buttons r"
      unfolding match by (rule disable_buttons_match)
    with 1(3) have "prefix w (''<button disabled'' @ disable_buttons r)" by simp
    with 1(2) have "w = []" by (cases w) auto
    then show ?thesis by simp
  next
    case (skip c cs)
    have "disable_buttons s = c # disable_buttons cs"
      unfolding skip(1) by (rule disable_buttons_skip [OF skip(2)])
    with 1(3) have p: "prefix w (c # disable_buttons cs)" by simp
    show ?thesis
    proof (cases w)
      case Nil
      then show ?thesis by simp
    next
      case (Cons x w')
      with p have "x = c" "prefix w' (disable_buttons cs)" by auto
      moreover have "CHR ''<'' \<notin> set w'" using 1(2) Cons by simp
      ultimately have "prefix w' cs" using 1(1) skip(1) by simp
      with \<open>x = c\<close> Cons skip(1) show ?thesis by simp
    qed
  qed
qed

lemma take7_disable_buttons:
  assumes "take 7 (c # disable_buttons cs) = ''<button''"
  shows "take 7 (c # cs) = ''<button''"
proof -
  from assms have c: "c = CHR ''<''" and t: "take 6 (disable_buttons cs) = ''button''"
    by simp_all
  have "prefix ''button'' (disable_buttons cs)"
    by (metis t take_is_prefix)
  then have "prefix ''button'' cs"
    by (rule disable_buttons_prefix [rotated]) simp
  then obtain r where "cs = ''button'' @ r" by (auto simp: prefix_def)
  with c show ?thesis by simp
qed

lemma no_button_inside:
  assumes "CHR ''<'' \<notin> set w" and "i < length w"
  shows "take 7 (drop i (w @ x)) \<noteq> ''<button''"
proof -
  from assms(2) obtain y ys where d: "drop i w = y # ys"
    by (cases "drop i w") simp_all
  then have "y \<in> set w" by (metis in_set_dropD list.set_intros(1))
  with assms(1) have "y \<noteq> CHR ''<''" by auto
  moreover have "drop i (w @ x) = y # ys @ x" using assms(2) d by simp
  ultimately show ?thesis by simp
qed

lemma disable_buttons_marks_every_tag:
  "take 7 (drop i (disable_buttons s)) = ''<button'' \<Longrightarrow>
     take 16 (drop i (disable_buttons s)) = ''<button disabled''"
proof (induction s arbitrary: i rule: length_induct)
  case (1 s)
  show ?case
  proof (cases s rule: button_cases)
    case Nil
    with 1(2) show ?thesis by (simp add: disable_buttons_Nil)
  next
    case (match r)
    have eq: "disable_buttons s = CHR ''<'' # ''button disabled'' @ disable_buttons r"
      unfolding match by (simp add: disable_buttons_match [simplified])
    consider "i = 0" | "0 < i" "i < 16" | "16 \<le> i" by linarith
    then show ?thesis
    proof cases
      case 1
      then show ?thesis by (simp add: eq)
    next
      case 2
      then obtain j where j: "i = Suc j" "j < length ''button disabled''"
        by (cases i) simp_all
      have "take 7 (drop j (''button disabled'' @ disable_buttons r)) \<noteq> ''<button''"
        by (rule no_button_inside [OF _ j(2)]) simp
      with "1.prems" show ?thesis unfolding eq j(1) by simp
    next
      case 3
      then obtain j where j: "i = 16 + j" by (metis le_Suc_ex)
      have "drop 16 (disable_buttons s) = disable_buttons r"
        unfolding eq by simp
      moreover have "drop i (disable_buttons s) = drop j (drop 16 (disable_buttons s))"
        unfolding j by (simp only: drop_drop add.commute)
      ultimately have d: "drop i (disable_buttons s) = drop j (disable_buttons r)"
        by simp
      have "length r < length s" unfolding match by simp
      with 1 d show ?thesis by simp
    qed
  next
    case (skip c cs)
    have eq: "disable_buttons s = c # disable_buttons cs"
      unfolding skip(1) by (rule disable_buttons_skip [OF skip(2)])
    show ?thesis
    proof (cases i)
      case 0
      with "1.prems" have "take 7 (c # disable_buttons cs) = ''<button''"
        by (simp add: eq)
      then have "take 7 (c # cs) = ''<button''" by (rule take7_disable_buttons)
      with skip(2) show ?thesis by simp
    next
      case (Suc j)
      then have d: "drop i (disable_buttons s) = drop j (disable_buttons cs)"
        by (simp add: eq)
      have "length cs < length s" unfolding skip(1) by simp
      with 1 d show ?thesis by simp
    qed
  qed
qed

lemma count_occ_button_skip:
  "CHR ''<'' \<notin> set w \<Longrightarrow> count_occ ''<button'' (w @ x) = count_occ ''<button'' x"
  by (induction w) auto

lemma count_occ_button_match:
  "count_occ ''<button'' (''<button'' @ r) = Suc (count_occ ''<button'' r)"
  using count_occ_button_skip [of "''button''" r] by simp

lemma count_occ_button_disabled:
  "count_occ ''<button'' (''<button disabled'' @ r) = Suc (count_occ ''<button'' r)"
  using count_occ_button_skip [of "''button disabled''" r] by simp

lemma count_occ_button_Cons:
  "count_occ ''<button'' (c # cs)
     = (if take 7 (c # cs) = ''<button'' then 1 else 0) + count_occ ''<button'' cs"
proof -
  have len: "length ''<button'' = 7" by simp
  show ?thesis by (simp only: count_occ.simps len)
qed

lemma count_occ_button_miss:
  "take 7 (c # cs) \<noteq> ''<button'' \<Longrightarrow> count_occ ''<button'' (c # cs) = count_occ ''<button'' cs"
  by (simp only: count_occ_button_Cons if_False add_0)

lemma count_occ_disable_buttons:
  "count_occ ''<button'' (disable_buttons s) = count_occ ''<button'' s"
proof (induction s rule: length_induct)
  case (1 s)
  show ?case
  proof (cases s rule: button_cases)
    case Nil
    then show ?thesis by (simp add: disable_buttons_Nil)
  next
    case (match r)
    have "length r < length s" unfolding match by simp
    with 1 have "count_occ ''<button'' (disable_buttons r) = count_occ ''<button'' r"
      by simp
    then show ?thesis
      unfolding match disable_buttons_match count_occ_button_match count_occ_button_disabled
      by simp
  next
    case (skip c cs)
    have eq: "disable_buttons s = c # disable_buttons cs"
      unfolding skip(1) by (rule disable_buttons_skip [OF skip(2)])
    have n: "take 7 (c # disable_buttons cs) \<noteq> ''<button''"
      using take7_disable_buttons skip(2) by blast
    have "length cs < length s" unfolding skip(1) by simp
    with 1 have ih: "count_occ ''<button'' (disable_buttons cs) = count_occ ''<button'' cs"
      by simp
    have "count_occ ''<button'' (disable_buttons s)
            = count_occ ''<button'' (disable_buttons cs)"
      unfolding eq by (rule count_occ_button_miss [OF n])
    also have "\<dots> = count_occ ''<button'' cs" by (rule ih)
    also have "\<dots> = count_occ ''<button'' s"
      unfolding skip(1) by (rule count_occ_button_miss [OF skip(2), symmetric])
    finally show ?thesis .
  qed
qed

lemma length_disable_buttons:
  "length (disable_buttons s) = length s + 9 * count_occ ''<button'' s"
proof (induction s rule: length_induct)
  case (1 s)
  show ?case
  proof (cases s rule: button_cases)
    case Nil
    then show ?thesis by (simp add: disable_buttons_Nil)
  next
    case (match r)
    have "length r < length s" unfolding match by simp
    with 1 have "length (disable_buttons r) = length r + 9 * count_occ ''<button'' r"
      by simp
    then show ?thesis
      unfolding match disable_buttons_match count_occ_button_match
      by simp
  next
    case (skip c cs)
    have eq: "disable_buttons s = c # disable_buttons cs"
      unfolding skip(1) by (rule disable_buttons_skip [OF skip(2)])
    have "length cs < length s" unfolding skip(1) by simp
    with 1 have ih: "length (disable_buttons cs) = length cs + 9 * count_occ ''<button'' cs"
      by simp
    have "length (disable_buttons s) = Suc (length (disable_buttons cs))"
      unfolding eq by simp
    also have "\<dots> = Suc (length cs) + 9 * count_occ ''<button'' cs"
      using ih by simp
    also have "\<dots> = length s + 9 * count_occ ''<button'' s"
      unfolding skip(1) count_occ_button_miss [OF skip(2)] by (simp only: list.size add_Suc_right add_0_right One_nat_def Nat.add_0_right length_Cons)
    finally show ?thesis .
  qed
qed

lemma occurs_count_occ: "pat \<noteq> [] \<Longrightarrow> occurs pat s \<longleftrightarrow> 0 < count_occ pat s"
  by (induction s) auto

lemma take_eq_prefix: "take (length pat) xs = pat \<longleftrightarrow> prefix pat xs"
proof
  assume "take (length pat) xs = pat"
  then have "prefix pat xs = prefix (take (length pat) xs) xs" by simp
  then show "prefix pat xs" by (simp only: take_is_prefix)
next
  assume "prefix pat xs"
  then obtain r where "xs = pat @ r" by (auto simp: prefix_def)
  then show "take (length pat) xs = pat" by simp
qed


lemma disable_buttons_no_tag:
  "CHR ''<'' \<notin> set w \<Longrightarrow> disable_buttons (w @ x) = w @ disable_buttons x"
proof (induction w)
  case Nil
  then show ?case by simp
next
  case (Cons c w)
  then have "c \<noteq> CHR ''<''" by auto
  then have "take 7 (c # w @ x) \<noteq> ''<button''" by simp
  then have "disable_buttons (c # w @ x) = c # disable_buttons (w @ x)"
    by (rule disable_buttons_skip)
  with Cons show ?case by simp
qed

lemma disable_buttons_twice:
  "disable_buttons (disable_buttons s) = str_replace ''<button'' ''<button disabled disabled'' s"
proof (induction s rule: length_induct)
  case (1 s)
  show ?case
  proof (cases s rule: button_cases)
    case Nil
    then show ?thesis by (simp add: disable_buttons_Nil str_replace_Nil)
  next
    case (match r)
    have "length r < length s" unfolding match by simp
    with 1 have ih: "disable_buttons (disable_buttons r)
                       = str_replace ''<button'' ''<button disabled disabled'' r"
      by simp
    have "disable_buttons s = ''<button'' @ ('' disabled'' @ disable_buttons r)"
      unfolding match disable_buttons_match by simp
    then have "disable_buttons (disable_buttons s)
                 = ''<button disabled'' @ disable_buttons ('' disabled'' @ disable_buttons r)"
      by (simp only: disable_buttons_match)
    also have "disable_buttons ('' disabled'' @ disable_buttons r)
                 = '' disabled'' @ disable_buttons (disable_buttons r)"
      by (rule disable_buttons_no_tag) simp
    finally have l: "disable_buttons (disable_buttons s)
                 = ''<button disabled disabled'' @ disable_buttons (disable_buttons r)"
      by simp
    have "str_replace ''<button'' ''<button disabled disabled'' s
            = ''<button disabled disabled'' @ str_replace ''<button'' ''<button disabled disabled'' r"
      unfolding match by (rule str_replace_match) simp
    with l ih show ?thesis by simp
  next
    case (skip c cs)
    have eq: "disable_buttons s = c # disable_buttons cs"
      unfolding skip(1) by (rule disable_buttons_skip [OF skip(2)])
    have n: "take 7 (c # disable_buttons cs) \<noteq> ''<button''"
      using take7_disable_buttons skip(2) by blast
    have "length cs < length s" unfolding skip(1) by simp
    with 1 have ih: "disable_buttons (disable_buttons cs)
                       = str_replace ''<button'' ''<button disabled disabled'' cs"
      by simp
    have len: "length ''<button'' = 7" by simp
    have "take (length ''<button'') (c # cs) \<noteq> ''<button''"
      unfolding len by (rule skip(2))
    then have "str_replace ''<button'' ''<button disabled disabled'' (c # cs)
            = c # str_replace ''<button'' ''<button disabled disabled'' cs"
      by (intro str_replace_skip) simp_all
    moreover have "disable_buttons (disable_buttons s) = c # disable_buttons (disable_buttons cs)"
      unfolding eq by (rule disable_buttons_skip [OF n])
    ultimately show ?thesis unfolding skip(1) using ih by simp
  qed
qed


section \<open>Disabling the buttons of a row\<close>

text \<open>
  Claim C6. For every markup string, each occurrence of the button tag \<open><button\<close> in
  the output of \<open>disable_buttons\<close> is followed at once by the marker \<open> disabled\<close>, and
  the output has as many occurrences of the tag as the input; the markup
  \<open><button>Good</button>\<close> becomes \<open><button disabled>Good</button>\<close>.
\<close>

theorem disable_buttons_marks_all:
  "(\<forall>i. take 7 (drop i (disable_buttons s)) = ''<button'' \<longrightarrow>
         take 16 (drop i (disable_buttons s)) = ''<button disabled'')
   \<and> count_occ ''<button'' (disable_buttons s) = count_occ ''<button'' s
   \<and> disable_buttons ''<button>Good</button>'' = ''<button disabled>Good</button>''"
proof -
  have "disable_buttons ''<button>Good</button>'' = ''<button disabled>Good</button>''"
    by code_simp
  then show ?thesis
    using disable_buttons_marks_every_tag count_occ_disable_buttons by blast
qed

theorem disable_buttons_marks_all_witness:
  "take 7 (drop 0 (disable_buttons ''<button>Good</button>'')) = ''<button''
   \<and> take 16 (drop 0 (disable_buttons ''<button>Good</button>'')) = ''<button disabled''
   \<and> count_occ ''<button'' (disable_buttons ''<button>Good</button>'') = 1"
proof -
  have "count_occ ''<button'' ''<button>Good</button>'' = 1" by code_simp
  moreover have "take 7 (drop 0 (disable_buttons ''<button>Good</button>'')) = ''<button''"
    by code_simp
  ultimately show ?thesis
    using disable_buttons_marks_all [of "''<button>Good</button>''"] by simp
qed

text \<open>
  Claim C10. \<open>disable_buttons\<close> is not idempotent: on a string that contains
  \<open><button\<close>, a second application gives a string different from the first one,
  because it finds the rewritten tags again and puts a second marker behind each
  \<open><button\<close> (nine more characters for every tag).
\<close>

theorem disable_buttons_not_idempotent:
  assumes "occurs ''<button'' s"
  shows "disable_buttons (disable_buttons s) \<noteq> disable_buttons s
   \<and> disable_buttons (disable_buttons s)
        = str_replace ''<button'' ''<button disabled disabled'' s
   \<and> length (disable_buttons (disable_buttons s))
        = length (disable_buttons s) + 9 * count_occ ''<button'' s"
proof -
  from assms have pos: "0 < count_occ ''<button'' s"
    by (simp add: occurs_count_occ)
  have len: "length (disable_buttons (disable_buttons s))
        = length (disable_buttons s) + 9 * count_occ ''<button'' s"
    by (simp only: length_disable_buttons [of "disable_buttons s"] count_occ_disable_buttons)
  with pos have "length (disable_buttons (disable_buttons s)) \<noteq> length (disable_buttons s)"
    by simp
  then have "disable_buttons (disable_buttons s) \<noteq> disable_buttons s" by auto
  with len show ?thesis by (simp only: disable_buttons_twice simp_thms)
qed

theorem disable_buttons_not_idempotent_witness:
  "occurs ''<button'' ''<button>Good</button>''
   \<and> disable_buttons (disable_buttons ''<button>Good</button>'')
        \<noteq> disable_buttons ''<button>Good</button>''
   \<and> disable_buttons (disable_buttons ''<button>Good</button>'')
        = str_replace ''<button'' ''<button disabled disabled'' ''<button>Good</button>''"
proof -
  have o: "occurs ''<button'' ''<button>Good</button>''" by code_simp
  show ?thesis
    using o disable_buttons_not_idempotent [OF o] by blast
qed

section \<open>Replacement by segments\<close>






section \<open>The rows built from the configuration\<close>

lemma collect_Inr:
  "collect f xs = Inr ys \<Longrightarrow>
     length ys = length xs \<and> (\<forall>i < length xs. f (xs ! i) = Inr (ys ! i))"
proof (induction xs arbitrary: ys)
  case Nil
  then show ?case by simp
next
  case (Cons x xs)
  from Cons.prems obtain y ys' where y: "f x = Inr y" and ys': "collect f xs = Inr ys'"
    and ys: "ys = y # ys'"
    by (auto split: sum.splits)
  from Cons.IH [OF ys'] have ih: "length ys' = length xs"
    "\<forall>i < length xs. f (xs ! i) = Inr (ys' ! i)" by simp_all
  show ?case
  proof (intro conjI allI impI)
    show "length ys = length (x # xs)" using ih(1) ys by simp
  next
    fix i assume "i < length (x # xs)"
    then show "f ((x # xs) ! i) = Inr (ys ! i)"
      using y ih(2) ys by (cases i) simp_all
  qed
qed




lemma example_button_time:
  \<open>button_time (example_config\<lparr>remove_buttons := True, flexible_grading := fg\<rparr>)
     example_reviewer ease = Inr ''<span >1d</span>''\<close>
proof -
  have r: \<open>str_replace ''class="nobold"'' [] ''<span class="nobold">1d</span>''
             = ''<span >1d</span>''\<close>
    by code_simp
  show ?thesis
    by (simp add: button_time_def v3_labels_def example_config_def example_reviewer_def r)
qed

lemma example_ease_row_back:
  \<open>ease_row (example_config\<lparr>remove_buttons := True, flexible_grading := fg\<rparr>)
     example_reviewer False = Inr [''<span >1d</span>'', ''<span >1d</span>'']\<close>
  unfolding ease_row_def example_button_time
  by (simp add: example_reviewer_def)



text \<open>
  Claim C3, as the claim states it, fails: with \<open>remove_buttons\<close> on and
  \<open>flexible_grading\<close> off, the front-side row of a reviewer with two buttons holds the
  remaining-counts indicator alone; the two time labels of the buttonless row are not
  in it.
\<close>

theorem frontside_remove_buttons_counterexample:
  \<open>remove_buttons (example_config\<lparr>remove_buttons := True, flexible_grading := False\<rparr>)
   \<and> ease_row (example_config\<lparr>remove_buttons := True, flexible_grading := False\<rparr>)
        example_reviewer False
      = Inr [''<span >1d</span>'', ''<span >1d</span>'']
   \<and> ease_row (example_config\<lparr>remove_buttons := True, flexible_grading := False\<rparr>)
        example_reviewer True
      = Inr [''<div class="ajt__stat_txt">1+2+3</div>'']
   \<and> ease_row (example_config\<lparr>remove_buttons := True, flexible_grading := False\<rparr>)
        example_reviewer True
      \<noteq> Inr [''<span >1d</span>'', ''<div class="ajt__stat_txt">1+2+3</div>'',
              ''<span >1d</span>'']
   \<and> frontside_html (example_config\<lparr>remove_buttons := True, flexible_grading := False\<rparr>)
        example_tr example_reviewer
      = Inr (Some (get_ease_row_css
                   @ ''<div class="ajt__ease_row"><div class="ajt__stat_txt">1+2+3</div></div>''))\<close>
proof -
  have t: \<open>ease_row (example_config\<lparr>remove_buttons := True, flexible_grading := False\<rparr>)
        example_reviewer True
      = Inr [''<div class="ajt__stat_txt">1+2+3</div>'']\<close>
    by (simp add: ease_row_def stat_txt_def list_insert_def example_reviewer_def)
  show ?thesis
    unfolding t example_ease_row_back
    by (simp add: frontside_html_def make_buttonless_ease_row_def t)
qed

text \<open>
  Claim C3, amended. With \<open>remove_buttons\<close> on, the front side shows the styled row of
  \<open>ease_row\<close> for the front (\<open>make_frontside_answer_buttons\<close> hands it to \<open>showAnswer\<close> and
  adjusts the height). If \<open>flexible_grading\<close> is on as well, that row is the
  buttonless row of the back side (one time label per button of the display list) with
  the remaining-counts indicator inserted at index \<open>length div 2\<close>. If
  \<open>flexible_grading\<close> is off, the row is the indicator alone.
\<close>

theorem frontside_remove_buttons_row:
  assumes "remove_buttons cfg"
  shows \<open>frontside_html cfg t self =
           (case ease_row cfg self True of
              Inl e \<Rightarrow> Inl e
            | Inr row \<Rightarrow>
                Inr (Some (get_ease_row_css @ ''<div class="ajt__ease_row">'' @ concat row
                           @ ''</div>'')))
         \<and> (flexible_grading cfg \<longrightarrow>
              ease_row cfg self True =
                (case ease_row cfg self False of
                   Inl e \<Rightarrow> Inl e
                 | Inr labels \<Rightarrow>
                     Inr (take (length labels div 2) labels @ [stat_txt self]
                          @ drop (length labels div 2) labels)))
         \<and> (\<not> flexible_grading cfg \<longrightarrow> ease_row cfg self True = Inr [stat_txt self])
         \<and> (\<forall>labels. ease_row cfg self False = Inr labels \<longrightarrow>
               length labels = length (answerButtonList self)
               \<and> (\<forall>i < length labels.
                     button_time cfg self (fst (answerButtonList self ! i)) = Inr (labels ! i)))
         \<and> make_frontside_answer_buttons json_dumps cfg t self =
               (case ease_row cfg self True of
                  Inl e \<Rightarrow> Inl e
                | Inr row \<Rightarrow>
                    Inr [Eval (''showAnswer(''
                               @ json_dumps (get_ease_row_css @ ''<div class="ajt__ease_row">''
                                             @ concat row @ ''</div>'')
                               @ '');''),
                         AdjustHeightToFit])\<close>
proof (intro conjI)
  show \<open>frontside_html cfg t self =
           (case ease_row cfg self True of
              Inl e \<Rightarrow> Inl e
            | Inr row \<Rightarrow>
                Inr (Some (get_ease_row_css @ ''<div class="ajt__ease_row">'' @ concat row
                           @ ''</div>'')))\<close>
    using assms
    by (simp add: frontside_html_def make_buttonless_ease_row_def split: sum.split)
next
  show "flexible_grading cfg \<longrightarrow>
          ease_row cfg self True =
            (case ease_row cfg self False of
               Inl e \<Rightarrow> Inl e
             | Inr labels \<Rightarrow>
                 Inr (take (length labels div 2) labels @ [stat_txt self]
                      @ drop (length labels div 2) labels))"
    by (simp add: ease_row_def list_insert_def split: sum.split)
next
  show "\<not> flexible_grading cfg \<longrightarrow> ease_row cfg self True = Inr [stat_txt self]"
    by (simp add: ease_row_def list_insert_def)
next
  show "\<forall>labels. ease_row cfg self False = Inr labels \<longrightarrow>
               length labels = length (answerButtonList self)
               \<and> (\<forall>i < length labels.
                     button_time cfg self (fst (answerButtonList self ! i)) = Inr (labels ! i))"
  proof (intro allI impI)
    fix labels assume "ease_row cfg self False = Inr labels"
    then have "collect (\<lambda>button. button_time cfg self (fst button)) (answerButtonList self)
                 = Inr labels"
      by (simp add: ease_row_def split: sum.splits)
    from collect_Inr [OF this]
    show "length labels = length (answerButtonList self)
               \<and> (\<forall>i < length labels.
                     button_time cfg self (fst (answerButtonList self ! i)) = Inr (labels ! i))"
      by simp
  qed
next
  show \<open>make_frontside_answer_buttons json_dumps cfg t self =
               (case ease_row cfg self True of
                  Inl e \<Rightarrow> Inl e
                | Inr row \<Rightarrow>
                    Inr [Eval (''showAnswer(''
                               @ json_dumps (get_ease_row_css @ ''<div class="ajt__ease_row">''
                                             @ concat row @ ''</div>'')
                               @ '');''),
                         AdjustHeightToFit])\<close>
    using assms
    by (simp add: make_frontside_answer_buttons_def frontside_html_def
          make_buttonless_ease_row_def split: sum.split)
qed

theorem frontside_remove_buttons_row_witness:
  \<open>remove_buttons (example_config\<lparr>remove_buttons := True, flexible_grading := True\<rparr>)
   \<and> ease_row (example_config\<lparr>remove_buttons := True, flexible_grading := True\<rparr>)
        example_reviewer True
      = Inr [''<span >1d</span>'', ''<div class="ajt__stat_txt">1+2+3</div>'',
             ''<span >1d</span>'']
   \<and> ease_row (example_config\<lparr>remove_buttons := True, flexible_grading := False\<rparr>)
        example_reviewer True
      = Inr [''<div class="ajt__stat_txt">1+2+3</div>'']
   \<and> length [''<span >1d</span>'', ''<span >1d</span>'']
      = length (answerButtonList example_reviewer)\<close>
proof -
  have a: "remove_buttons (example_config\<lparr>remove_buttons := True, flexible_grading := fg\<rparr>)"
    for fg by simp
  have st: \<open>stat_txt example_reviewer = ''<div class="ajt__stat_txt">1+2+3</div>''\<close>
    by (simp add: stat_txt_def example_reviewer_def)
  note on = frontside_remove_buttons_row
        [OF a [of True], where t = example_tr and self = example_reviewer,
         unfolded example_ease_row_back]
  note off = frontside_remove_buttons_row
        [OF a [of False], where t = example_tr and self = example_reviewer,
         unfolded example_ease_row_back]
  have "ease_row (example_config\<lparr>remove_buttons := True, flexible_grading := True\<rparr>)
        example_reviewer True
      = Inr [''<span >1d</span>'', stat_txt example_reviewer, ''<span >1d</span>'']"
    using on by simp
  moreover have "ease_row (example_config\<lparr>remove_buttons := True, flexible_grading := False\<rparr>)
        example_reviewer True
      = Inr [stat_txt example_reviewer]"
    using off by simp
  moreover have "length [''<span >1d</span>'', ''<span >1d</span>'']
      = length (answerButtonList example_reviewer)"
    using on by blast
  ultimately show ?thesis
    unfolding st using a by simp
qed

section \<open>The time labels of the buttonless row\<close>













section \<open>Cell markers and the flexible front row\<close>

lemma finditer_from_Nil: "pat \<noteq> [] \<Longrightarrow> finditer_from pat i [] = []"
  by (simp add: finditer_from.simps)

lemma finditer_from_match:
  "pat \<noteq> [] \<Longrightarrow>
     finditer_from pat i (pat @ r) = i # finditer_from pat (i + length pat) r"
  by (subst finditer_from.simps) simp

lemma finditer_from_skip:
  "pat \<noteq> [] \<Longrightarrow> take (length pat) (c # cs) \<noteq> pat \<Longrightarrow>
     finditer_from pat i (c # cs) = finditer_from pat (Suc i) cs"
  by (subst finditer_from.simps) simp

lemma finditer_from_shift:
  assumes "pat \<noteq> []"
  shows "finditer_from pat i s = map (\<lambda>k. i + k) (finditer_from pat 0 s)"
proof (induction s arbitrary: i rule: length_induct)
  case (1 s)
  show ?case
  proof (cases s rule: string_cases [where old = pat])
    case Nil
    then show ?thesis using assms by (simp add: finditer_from_Nil)
  next
    case (match r)
    have "length r < length s" unfolding match using assms by simp
    with 1 have ih: "finditer_from pat j r = map (\<lambda>k. j + k) (finditer_from pat 0 r)" for j
      by blast
    have "finditer_from pat i s = i # finditer_from pat (i + length pat) r"
      unfolding match by (rule finditer_from_match [OF assms])
    also have "\<dots> = i # map (\<lambda>k. i + length pat + k) (finditer_from pat 0 r)"
      by (subst ih) simp
    finally have l: "finditer_from pat i s
                       = i # map (\<lambda>k. i + length pat + k) (finditer_from pat 0 r)" .
    have "finditer_from pat 0 s = 0 # finditer_from pat (0 + length pat) r"
      unfolding match by (rule finditer_from_match [OF assms])
    also have "\<dots> = 0 # map (\<lambda>k. length pat + k) (finditer_from pat 0 r)"
      by (subst ih) simp
    finally show ?thesis using l by (simp add: add.assoc)
  next
    case (skip c cs)
    have "length cs < length s" unfolding skip(1) by simp
    with 1 have ih: "finditer_from pat j cs = map (\<lambda>k. j + k) (finditer_from pat 0 cs)" for j
      by blast
    have "finditer_from pat i s = finditer_from pat (Suc i) cs"
      unfolding skip(1) by (rule finditer_from_skip [OF assms skip(2)])
    moreover have "finditer_from pat 0 s = finditer_from pat (Suc 0) cs"
      unfolding skip(1) by (rule finditer_from_skip [OF assms skip(2)])
    ultimately show ?thesis
      by (simp add: ih [of "Suc i"] ih [of "Suc 0"])
  qed
qed

lemma take_pat_take:
  assumes "take (length pat) (c # cs) \<noteq> pat"
  shows "take (length pat) (c # take m cs) \<noteq> pat"
proof
  assume "take (length pat) (c # take m cs) = pat"
  then have "prefix pat (c # take m cs)" by (simp only: take_eq_prefix)
  moreover have "prefix (c # take m cs) (c # cs)" by (simp add: take_is_prefix)
  ultimately have "prefix pat (c # cs)" by (rule prefix_order.trans)
  then have "take (length pat) (c # cs) = pat" by (simp only: take_eq_prefix)
  with assms show False by contradiction
qed

lemma finditer_from_split:
  assumes "pat \<noteq> []"
  shows "k < length (finditer_from pat i s) \<Longrightarrow> p = finditer_from pat i s ! k \<Longrightarrow>
           i \<le> p
           \<and> finditer_from pat i (take (p - i) s) = take k (finditer_from pat i s)
           \<and> finditer_from pat p (drop (p - i) s) = drop k (finditer_from pat i s)
           \<and> take (length pat) (drop (p - i) s) = pat"
proof (induction s arbitrary: i k rule: length_induct)
  case (1 s)
  show ?case
  proof (cases s rule: string_cases [where old = pat])
    case Nil
    with 1(2) assms show ?thesis by (simp add: finditer_from_Nil)
  next
    case (match r)
    have eq: "finditer_from pat i s = i # finditer_from pat (i + length pat) r"
      unfolding match by (rule finditer_from_match [OF assms])
    show ?thesis
    proof (cases k)
      case 0
      with 1(3) eq have p: "p = i" by simp
      have "take (length pat) s = pat" unfolding match by simp
      with p 0 eq assms show ?thesis by (simp add: finditer_from_Nil)
    next
      case (Suc k')
      have len: "length r < length s" unfolding match using assms by simp
      have k': "k' < length (finditer_from pat (i + length pat) r)"
        using 1(2) eq Suc by simp
      have p: "p = finditer_from pat (i + length pat) r ! k'"
        using 1(3) eq Suc by simp
      from 1(1) len k' p
      have ih: "i + length pat \<le> p"
        "finditer_from pat (i + length pat) (take (p - (i + length pat)) r)
           = take k' (finditer_from pat (i + length pat) r)"
        "finditer_from pat p (drop (p - (i + length pat)) r)
           = drop k' (finditer_from pat (i + length pat) r)"
        "take (length pat) (drop (p - (i + length pat)) r) = pat"
        by blast+
      have t: "take (p - i) s = pat @ take (p - (i + length pat)) r"
        unfolding match using ih(1) by simp
      have d: "drop (p - i) s = drop (p - (i + length pat)) r"
        unfolding match using ih(1) by simp
      have "finditer_from pat i (take (p - i) s)
              = i # finditer_from pat (i + length pat) (take (p - (i + length pat)) r)"
        unfolding t by (rule finditer_from_match [OF assms])
      with ih d eq Suc show ?thesis by simp
    qed
  next
    case (skip c cs)
    have eq: "finditer_from pat i s = finditer_from pat (Suc i) cs"
      unfolding skip(1) by (rule finditer_from_skip [OF assms skip(2)])
    have len: "length cs < length s" unfolding skip(1) by simp
    from 1(1) len 1(2,3) eq
    have ih: "Suc i \<le> p"
      "finditer_from pat (Suc i) (take (p - Suc i) cs) = take k (finditer_from pat (Suc i) cs)"
      "finditer_from pat p (drop (p - Suc i) cs) = drop k (finditer_from pat (Suc i) cs)"
      "take (length pat) (drop (p - Suc i) cs) = pat"
      by (metis (no_types))+
    have t: "take (p - i) s = c # take (p - Suc i) cs"
      unfolding skip(1) using ih(1) by (simp add: take_Cons')
    have d: "drop (p - i) s = drop (p - Suc i) cs"
      unfolding skip(1) using ih(1) by (simp add: drop_Cons')
    have "finditer_from pat i (take (p - i) s)
            = finditer_from pat (Suc i) (take (p - Suc i) cs)"
      unfolding t by (rule finditer_from_skip [OF assms take_pat_take [OF skip(2)]])
    with ih d eq show ?thesis by simp
  qed
qed

lemma td_no_straddle:
  assumes "take (length ''<td'') (c # cs) \<noteq> ''<td''"
    and "b = [] \<or> (hd b \<noteq> CHR ''t'' \<and> hd b \<noteq> CHR ''d'')"
  shows "take (length ''<td'') (c # cs @ b) \<noteq> ''<td''"
proof (cases cs)
  case Nil
  with assms(2) show ?thesis by (cases b) auto
next
  case (Cons x cs')
  show ?thesis
  proof (cases cs')
    case Nil
    with Cons assms(2) show ?thesis by (cases b) auto
  next
    case (Cons y cs'')
    with \<open>cs = x # cs'\<close> assms(1) show ?thesis by simp
  qed
qed

lemma finditer_td_append:
  assumes "b = [] \<or> (hd b \<noteq> CHR ''t'' \<and> hd b \<noteq> CHR ''d'')"
  shows "finditer_from ''<td'' i (a @ b)
           = finditer_from ''<td'' i a @ finditer_from ''<td'' (i + length a) b"
proof (induction a arbitrary: i rule: length_induct)
  case (1 a)
  have ne: "''<td'' \<noteq> []" by simp
  show ?case
  proof (cases a rule: string_cases [where old = "''<td''"])
    case Nil
    then show ?thesis by (simp add: finditer_from_Nil)
  next
    case (match r)
    have "length r < length a" unfolding match by simp
    with 1 have ih: "finditer_from ''<td'' j (r @ b)
           = finditer_from ''<td'' j r @ finditer_from ''<td'' (j + length r) b" for j
      by blast
    have "finditer_from ''<td'' i (a @ b)
            = i # finditer_from ''<td'' (i + length ''<td'') (r @ b)"
      unfolding match append_assoc by (rule finditer_from_match [OF ne])
    moreover have "finditer_from ''<td'' i a
            = i # finditer_from ''<td'' (i + length ''<td'') r"
      unfolding match by (rule finditer_from_match [OF ne])
    moreover have "i + length a = i + length ''<td'' + length r"
      unfolding match by simp
    ultimately show ?thesis by (simp only: ih append_Cons)
  next
    case (skip c cs)
    have "length cs < length a" unfolding skip(1) by simp
    with 1 have ih: "finditer_from ''<td'' j (cs @ b)
           = finditer_from ''<td'' j cs @ finditer_from ''<td'' (j + length cs) b" for j
      by blast
    have "finditer_from ''<td'' i (a @ b) = finditer_from ''<td'' (Suc i) (cs @ b)"
      unfolding skip(1) append_Cons
      by (rule finditer_from_skip [OF ne td_no_straddle [OF skip(2) assms]])
    moreover have "finditer_from ''<td'' i a = finditer_from ''<td'' (Suc i) cs"
      unfolding skip(1) by (rule finditer_from_skip [OF ne skip(2)])
    moreover have "i + length a = Suc i + length cs"
      unfolding skip(1) by simp
    ultimately show ?thesis by (simp only: ih)
  qed
qed

lemma finditer_td_other:
  "c \<noteq> CHR ''<'' \<Longrightarrow> finditer_from ''<td'' i (c # cs) = finditer_from ''<td'' (Suc i) cs"
  by (rule finditer_from_skip) simp_all

lemma finditer_td_lt_other:
  "x \<noteq> CHR ''t'' \<Longrightarrow>
     finditer_from ''<td'' i (CHR ''<'' # x # cs) = finditer_from ''<td'' (Suc i) (x # cs)"
  by (rule finditer_from_skip) simp_all

lemma finditer_td_match:
  "finditer_from ''<td'' i (CHR ''<'' # CHR ''t'' # CHR ''d'' # r)
     = i # finditer_from ''<td'' (Suc (Suc (Suc i))) r"
  using finditer_from_match [of "''<td''" i r] by simp

lemma finditer_td_none:
  assumes "finditer_starts ''<td'' a = []"
  shows "finditer_from ''<td'' i a = []"
  using assms finditer_from_shift [of "''<td''" i a]
  by (simp add: finditer_starts_def)

lemma finditer_td_host_text:
  assumes "finditer_starts ''<td'' a = []" and "hd b \<noteq> CHR ''t''" and "hd b \<noteq> CHR ''d''"
  shows "finditer_from ''<td'' i (a @ b) = finditer_from ''<td'' (i + length a) b"
  using finditer_td_append [of b i a] assms(2,3) finditer_td_none [OF assms(1)]
  by simp

lemma show_ans_cell_one_marker:
  assumes "finditer_starts ''<td'' (actions_shortcut_key t (studying_space t)) = []"
    and "finditer_starts ''<td'' (studying_show_answer t) = []"
    and "finditer_starts ''<td'' (remaining self) = []"
  shows "finditer_starts ''<td'' (make_show_ans_table_cell t self) = [0]"
  unfolding finditer_starts_def make_show_ans_table_cell_def make_show_ans_button_def
    newline_def
  by (simp add: finditer_td_match finditer_td_other finditer_td_lt_other
        finditer_td_host_text [OF assms(1)] finditer_td_host_text [OF assms(2)]
        finditer_td_host_text [OF assms(3)] finditer_from_Nil)

lemma show_ans_cell_starts:
  "\<exists>r. make_show_ans_table_cell t self = ''<td'' @ r"
  by (simp add: make_show_ans_table_cell_def)

lemma finditer_row_with_cell:
  assumes k: "k < length (finditer_starts ''<td'' s)"
    and p: "p = finditer_starts ''<td'' s ! k"
    and cell: "cell = ''<td'' @ r"
  shows "finditer_starts ''<td'' (take p s) = take k (finditer_starts ''<td'' s)"
    and "finditer_starts ''<td'' (take p s @ cell @ drop p s)
           = take k (finditer_starts ''<td'' s)
             @ map (\<lambda>q. p + q) (finditer_starts ''<td'' cell)
             @ map (\<lambda>q. length cell + q) (drop k (finditer_starts ''<td'' s))"
    and "finditer_starts ''<td'' cell \<noteq> [] \<and> hd (finditer_starts ''<td'' cell) = 0"
    and "p < length s"
proof -
  have ne: "''<td'' \<noteq> []" by simp
  from finditer_from_split [OF ne, of k 0 s p] k p
  have sp: "finditer_from ''<td'' 0 (take p s) = take k (finditer_from ''<td'' 0 s)"
    "finditer_from ''<td'' p (drop p s) = drop k (finditer_from ''<td'' 0 s)"
    "take (length ''<td'') (drop p s) = ''<td''"
    by (simp_all add: finditer_starts_def)
  show first: "finditer_starts ''<td'' (take p s) = take k (finditer_starts ''<td'' s)"
    using sp(1) by (simp add: finditer_starts_def)
  from sp(3) have dne: "drop p s \<noteq> []" by auto
  then show plt: "p < length s" by simp
  from sp(3) obtain r' where r': "drop p s = ''<td'' @ r'"
    by (metis append_take_drop_id)
  have hd_drop: "drop p s = [] \<or> (hd (drop p s) \<noteq> CHR ''t'' \<and> hd (drop p s) \<noteq> CHR ''d'')"
    unfolding r' by simp
  have hd_cell: "cell @ drop p s = []
      \<or> (hd (cell @ drop p s) \<noteq> CHR ''t'' \<and> hd (cell @ drop p s) \<noteq> CHR ''d'')"
    unfolding cell by simp
  have lt: "length (take p s) = p" using plt by simp
  have "finditer_from ''<td'' 0 (take p s @ cell @ drop p s)
          = finditer_from ''<td'' 0 (take p s)
            @ finditer_from ''<td'' (0 + length (take p s)) (cell @ drop p s)"
    by (rule finditer_td_append [OF hd_cell])
  also have "finditer_from ''<td'' (0 + length (take p s)) (cell @ drop p s)
          = finditer_from ''<td'' p cell @ finditer_from ''<td'' (p + length cell) (drop p s)"
    unfolding lt add_0 by (rule finditer_td_append [OF hd_drop])
  also have "finditer_from ''<td'' p cell = map (\<lambda>q. p + q) (finditer_from ''<td'' 0 cell)"
    by (rule finditer_from_shift [OF ne])
  also have "finditer_from ''<td'' (p + length cell) (drop p s)
          = map (\<lambda>q. length cell + q) (finditer_from ''<td'' p (drop p s))"
  proof -
    have "finditer_from ''<td'' (p + length cell) (drop p s)
            = map (\<lambda>q. p + length cell + q) (finditer_from ''<td'' 0 (drop p s))"
      by (rule finditer_from_shift [OF ne])
    moreover have "finditer_from ''<td'' p (drop p s)
            = map (\<lambda>q. p + q) (finditer_from ''<td'' 0 (drop p s))"
      by (rule finditer_from_shift [OF ne])
    ultimately show ?thesis by (simp add: ac_simps)
  qed
  finally show "finditer_starts ''<td'' (take p s @ cell @ drop p s)
           = take k (finditer_starts ''<td'' s)
             @ map (\<lambda>q. p + q) (finditer_starts ''<td'' cell)
             @ map (\<lambda>q. length cell + q) (drop k (finditer_starts ''<td'' s))"
    unfolding sp finditer_starts_def .
  have "finditer_from ''<td'' 0 cell = 0 # finditer_from ''<td'' (0 + length ''<td'') r"
    unfolding cell by (rule finditer_from_match [OF ne])
  then show "finditer_starts ''<td'' cell \<noteq> [] \<and> hd (finditer_starts ''<td'' cell) = 0"
    by (simp add: finditer_starts_def)
qed

text \<open>
  Claim C4. Under flexible grading, for a back-side row with \<open>N \<ge> 1\<close> cell markers
  \<open><td\<close>, the show-answer cell is spliced in at the offset of the marker with index
  \<open>N div 2\<close>: the row is the text before that marker, the cell, and the text from that
  marker on, so all grading cells keep their relative order. The first \<open>N div 2\<close>
  markers stay where they are, the new cell is the marker with index \<open>N div 2\<close> of the
  combined row, and the other markers follow, moved by the length of the cell. When the
  texts of the show-answer button hold no marker of their own, the combined row has
  \<open>N + 1\<close> markers; for \<open>N = 4\<close> the new cell has index 2 of 5.
\<close>

theorem make_flexible_front_row_middle:
  assumes ps: "ps = finditer_starts ''<td'' (ans_buttons_default self)" and ne: "ps \<noteq> []"
    and p: "p = ps ! (length ps div 2)"
    and cell: "cell = make_show_ans_table_cell t self"
    and row: "row = take p (ans_buttons_default self) @ cell @ drop p (ans_buttons_default self)"
  shows "make_flexible_front_row t self = Inr row
    \<and> (\<not> remove_buttons cfg \<and> flexible_grading cfg \<longrightarrow>
         frontside_html cfg t self
           = Inr (Some (if prevent_clicks cfg then disable_buttons row else row)))
    \<and> finditer_starts ''<td'' (take p (ans_buttons_default self)) = take (length ps div 2) ps
    \<and> finditer_starts ''<td'' row
         = take (length ps div 2) ps @ map (\<lambda>q. p + q) (finditer_starts ''<td'' cell)
           @ map (\<lambda>q. length cell + q) (drop (length ps div 2) ps)
    \<and> finditer_starts ''<td'' row ! (length ps div 2) = p
    \<and> take (length cell) (drop p row) = cell
    \<and> length (finditer_starts ''<td'' row) = length ps + length (finditer_starts ''<td'' cell)
    \<and> (finditer_starts ''<td'' (actions_shortcut_key t (studying_space t)) = []
         \<and> finditer_starts ''<td'' (studying_show_answer t) = []
         \<and> finditer_starts ''<td'' (remaining self) = [] \<longrightarrow>
         finditer_starts ''<td'' row
           = take (length ps div 2) ps @ [p]
             @ map (\<lambda>q. length cell + q) (drop (length ps div 2) ps)
         \<and> length (finditer_starts ''<td'' row) = length ps + 1)"
proof -
  let ?s = "ans_buttons_default self"
  let ?k = "length ps div 2"
  from ne have k: "length (finditer_starts ''<td'' ?s) div 2
                     < length (finditer_starts ''<td'' ?s)"
    unfolding ps by simp
  have p': "p = finditer_starts ''<td'' ?s ! (length (finditer_starts ''<td'' ?s) div 2)"
    using p unfolding ps .
  obtain r where r: "cell = ''<td'' @ r"
    using show_ans_cell_starts [of t self] unfolding cell by blast
  note facts = finditer_row_with_cell [OF k p' r]
  have a: "make_flexible_front_row t self = Inr row"
    using ne unfolding make_flexible_front_row_def Let_def calc_middle_insert_pos_eq
      row cell p ps
    by simp
  have b: "\<not> remove_buttons cfg \<and> flexible_grading cfg \<longrightarrow>
         frontside_html cfg t self
           = Inr (Some (if prevent_clicks cfg then disable_buttons row else row))"
    by (simp add: frontside_html_def a)
  have c: "finditer_starts ''<td'' (take p ?s) = take ?k ps"
    using facts(1) unfolding ps .
  have d: "finditer_starts ''<td'' row
         = take ?k ps @ map (\<lambda>q. p + q) (finditer_starts ''<td'' cell)
           @ map (\<lambda>q. length cell + q) (drop ?k ps)"
    using facts(2) unfolding ps row .
  have lk: "length (take ?k ps) = ?k" using ne by simp
  have e: "finditer_starts ''<td'' row ! ?k = p"
  proof -
    from facts(3) obtain x xs where x: "finditer_starts ''<td'' cell = x # xs" "x = 0"
      by (cases "finditer_starts ''<td'' cell") auto
    show ?thesis unfolding d x using lk by (simp add: nth_append)
  qed
  have f: "take (length cell) (drop p row) = cell"
    unfolding row using facts(4) by simp
  have g: "length (finditer_starts ''<td'' row)
             = length ps + length (finditer_starts ''<td'' cell)"
    unfolding d using ne by simp
  have h: "finditer_starts ''<td'' row
           = take ?k ps @ [p] @ map (\<lambda>q. length cell + q) (drop ?k ps)
         \<and> length (finditer_starts ''<td'' row) = length ps + 1"
    if "finditer_starts ''<td'' (actions_shortcut_key t (studying_space t)) = []"
      "finditer_starts ''<td'' (studying_show_answer t) = []"
      "finditer_starts ''<td'' (remaining self) = []"
  proof -
    have one: "finditer_starts ''<td'' cell = [0]"
      unfolding cell by (rule show_ans_cell_one_marker [OF that])
    show ?thesis using g unfolding d one by simp
  qed
  from a b c d e f g h show ?thesis by blast
qed

theorem make_flexible_front_row_middle_witness:
  \<open>finditer_starts ''<td''
      (ans_buttons_default
         (example_reviewer\<lparr>ans_buttons_default := ''<td>1</td><td>2</td><td>3</td><td>4</td>''\<rparr>))
     = [0, 10, 20, 30]
   \<and> make_flexible_front_row example_tr
        (example_reviewer\<lparr>ans_buttons_default := ''<td>1</td><td>2</td><td>3</td><td>4</td>''\<rparr>)
     = Inr (''<td>1</td><td>2</td>''
            @ make_show_ans_table_cell example_tr
                (example_reviewer
                   \<lparr>ans_buttons_default := ''<td>1</td><td>2</td><td>3</td><td>4</td>''\<rparr>)
            @ ''<td>3</td><td>4</td>'')
   \<and> finditer_starts ''<td''
        (''<td>1</td><td>2</td>''
         @ make_show_ans_table_cell example_tr
             (example_reviewer
                \<lparr>ans_buttons_default := ''<td>1</td><td>2</td><td>3</td><td>4</td>''\<rparr>)
         @ ''<td>3</td><td>4</td>'') ! 2 = 20
   \<and> length (finditer_starts ''<td''
        (''<td>1</td><td>2</td>''
         @ make_show_ans_table_cell example_tr
             (example_reviewer
                \<lparr>ans_buttons_default := ''<td>1</td><td>2</td><td>3</td><td>4</td>''\<rparr>)
         @ ''<td>3</td><td>4</td>'')) = 5\<close>
proof -
  let ?self = "example_reviewer
                 \<lparr>ans_buttons_default := ''<td>1</td><td>2</td><td>3</td><td>4</td>''\<rparr>"
  let ?cell = "make_show_ans_table_cell example_tr ?self"
  let ?row = "''<td>1</td><td>2</td>'' @ ?cell @ ''<td>3</td><td>4</td>''"
  have s: "ans_buttons_default ?self = ''<td>1</td><td>2</td><td>3</td><td>4</td>''"
    by simp
  have ps: "[0, 10, 20, 30] = finditer_starts ''<td'' (ans_buttons_default ?self)"
    unfolding s by code_simp
  have ne: "[0, 10, 20, 30] \<noteq> ([] :: nat list)" by simp
  have p: "(20 :: nat) = [0, 10, 20, 30] ! (length [0, 10, 20, 30 :: nat] div 2)" by simp
  have row: "?row = take 20 (ans_buttons_default ?self) @ ?cell
                    @ drop 20 (ans_buttons_default ?self)"
    unfolding s by simp
  have h1: "finditer_starts ''<td'' (actions_shortcut_key example_tr (studying_space example_tr))
              = []"
    unfolding example_tr_def by (simp, code_simp)
  have h2: "finditer_starts ''<td'' (studying_show_answer example_tr) = []"
    unfolding example_tr_def by (simp, code_simp)
  have h3: "finditer_starts ''<td'' (remaining ?self) = []"
    unfolding example_reviewer_def by (simp, code_simp)
  note inst = make_flexible_front_row_middle [OF ps ne p refl row]
  note c2 = conjunct2
  have k2: "length [0, 10, 20, 30 :: nat] div 2 = 2" by simp
  have l5: "length [0, 10, 20, 30 :: nat] + 1 = 5" by simp
  have a: "make_flexible_front_row example_tr ?self = Inr ?row"
    by (rule inst [THEN conjunct1])
  have b: "finditer_starts ''<td'' ?row ! 2 = 20"
    by (rule inst [THEN c2, THEN c2, THEN c2, THEN c2, THEN conjunct1, unfolded k2])
  have c: "length (finditer_starts ''<td'' ?row) = 5"
    by (rule inst [THEN c2, THEN c2, THEN c2, THEN c2, THEN c2, THEN c2, THEN c2,
          rule_format, OF conjI [OF h1 conjI [OF h2 h3]], THEN c2, unfolded l5])
  from ps [symmetric] a b c show ?thesis
    unfolding s by (intro conjI)
qed

end
